theory Spec2Isabelle
  imports Complex_Main "HOL-Library.Log_Nat" "HOL-Library.Multiset"
begin

unbundle bit_operations_syntax

section \<open>The command model\<close>

text \<open>
  A verification development for \<^verbatim>\<open>synchronizedSequenceShow.py\<close>: the scheduler loop
  \<^verbatim>\<open>control_thread\<close>, the agent worker \<^verbatim>\<open>crazyflie_control\<close> and \<^verbatim>\<open>set_ring_color\<close>.

  Numbers in command fields are Python floats. A finite float is a rational number, so
  the model's number type is \<open>rat\<close>; every arithmetic operation of the source is followed
  by the rounding of IEEE binary64 (section ``Floating point''). An integer written in a
  numeric field is identified with the float of the same value.
\<close>

type_synonym num = rat

text \<open>
  The namedtuples of the source, with their fields in declaration order:
  \<^verbatim>\<open>Takeoff(height, time)\<close>, \<^verbatim>\<open>Land(time)\<close>, \<^verbatim>\<open>Goto(x, y, z, time)\<close>,
  \<^verbatim>\<open>Ring(r, g, b, intensity, time)\<close>,
  \<^verbatim>\<open>Helix(d, z, zf, theta0, circle_period, No_setpoints, time)\<close> and \<^verbatim>\<open>Quit()\<close>.
  \<^verbatim>\<open>No_setpoints\<close> is the bound of a \<^verbatim>\<open>range\<close>, hence a Python integer.
  A queue can hold any Python object: \<open>Other s\<close> is an object of any other type, \<open>s\<close> its
  rendering by \<^verbatim>\<open>format\<close>.
\<close>

datatype command =
    Takeoff num num
  | Land num
  | Goto num num num num
  | Ring num num num num num
  | Helix num num num num num int num
  | Quit
  | Other string

text \<open>An entry of \<^verbatim>\<open>sequence\<close>: \<^verbatim>\<open>(step, cf_id, command)\<close>.\<close>

type_synonym entry = "int \<times> int \<times> command"

datatype pyerror = IndexError | ZeroDivisionError | ValueError | OverflowError | OSError

section \<open>The scheduler loop\<close>

text \<open>
  What \<^verbatim>\<open>control_thread\<close> does to the outside, in order: its prints, its sleeps and its
  puts. \<open>Queue_put t k c\<close> is \<^verbatim>\<open>controlQueues[k].put(c)\<close> (with \<open>k\<close> the position after
  Python's index normalisation) executed while the variable \<^verbatim>\<open>step\<close> holds \<open>t\<close>.
\<close>

datatype sched_event =
    Print_step int
  | Print_running command int
  | Queue_put int nat command
  | Print_end
  | Sleep_STEP_TIME

record sched =
  pointer :: nat
  step :: int
  stop :: bool
  controlQueues :: "command list list"
  out :: "sched_event list"

text \<open>
  Python's list indexing \<^verbatim>\<open>xs[i]\<close> with an integer: a negative index counts from the
  end, anything outside \<open>-len \<dots> len - 1\<close> raises \<^verbatim>\<open>IndexError\<close>.
\<close>

definition py_index :: "nat \<Rightarrow> int \<Rightarrow> nat option" where
  "py_index n i =
     (let j = (if i < 0 then i + int n else i)
      in if 0 \<le> j \<and> j < int n then Some (nat j) else None)"

text \<open>\<^verbatim>\<open>Queue.put\<close> appends at the tail of a FIFO.\<close>

definition put :: "command list list \<Rightarrow> nat \<Rightarrow> command \<Rightarrow> command list list" where
  "put qs k c = qs[k := qs ! k @ [c]]"

text \<open>
  The inner loop \<^verbatim>\<open>while sequence[pointer][0] <= step: \<dots>\<close>. A result \<open>Inl (e, s)\<close> is
  the exception \<open>e\<close> raised in state \<open>s\<close>; \<open>Inr s\<close> is the loop left normally (by its
  condition or by \<^verbatim>\<open>break\<close>).
\<close>

function inner :: "entry list \<Rightarrow> sched \<Rightarrow> (pyerror \<times> sched) + sched" where
  "inner sequence s =
     (if length sequence \<le> pointer s then Inl (IndexError, s)
      else case sequence ! pointer s of (st, cf_id, command) \<Rightarrow>
        if st \<le> step s then
          let s1 = s\<lparr>out := out s @ [Print_running command cf_id]\<rparr>
          in case py_index (length (controlQueues s1)) cf_id of
               None \<Rightarrow> Inl (IndexError, s1)
             | Some k \<Rightarrow>
                 let s2 = s1\<lparr>controlQueues := put (controlQueues s1) k command,
                             out := out s1 @ [Queue_put (step s1) k command],
                             pointer := pointer s1 + 1\<rparr>
                 in if length sequence \<le> pointer s2
                    then Inr (s2\<lparr>out := out s2 @ [Print_end], stop := True\<rparr>)
                    else inner sequence s2
        else Inr s)"
  by pat_completeness auto
termination
  by (relation "measure (\<lambda>(sequence, s). length sequence - pointer s)") auto

declare inner.simps [simp del]


lemma inner_read_raises:
  "length sequence \<le> pointer s \<Longrightarrow> inner sequence s = Inl (IndexError, s)"
  by (simp add: inner.simps [of sequence s])

lemma inner_not_due:
  "pointer s < length sequence \<Longrightarrow> step s < fst (sequence ! pointer s) \<Longrightarrow>
   inner sequence s = Inr s"
  by (auto simp: inner.simps [of sequence s] split: prod.splits)

lemma inner_put_raises:
  "pointer s < length sequence \<Longrightarrow> sequence ! pointer s = (st, cf_id, command) \<Longrightarrow>
   st \<le> step s \<Longrightarrow> py_index (length (controlQueues s)) cf_id = None \<Longrightarrow>
   inner sequence s = Inl (IndexError, s\<lparr>out := out s @ [Print_running command cf_id]\<rparr>)"
  by (simp add: inner.simps [of sequence s])

lemma inner_last:
  "pointer s < length sequence \<Longrightarrow> sequence ! pointer s = (st, cf_id, command) \<Longrightarrow>
   st \<le> step s \<Longrightarrow> py_index (length (controlQueues s)) cf_id = Some k \<Longrightarrow>
   length sequence \<le> Suc (pointer s) \<Longrightarrow>
   inner sequence s =
     Inr (s\<lparr>controlQueues := put (controlQueues s) k command,
            out := out s @ [Print_running command cf_id, Queue_put (step s) k command, Print_end],
            pointer := Suc (pointer s), stop := True\<rparr>)"
  by (simp add: inner.simps [of sequence s])

lemma inner_more:
  "pointer s < length sequence \<Longrightarrow> sequence ! pointer s = (st, cf_id, command) \<Longrightarrow>
   st \<le> step s \<Longrightarrow> py_index (length (controlQueues s)) cf_id = Some k \<Longrightarrow>
   Suc (pointer s) < length sequence \<Longrightarrow>
   inner sequence s =
     inner sequence
       (s\<lparr>controlQueues := put (controlQueues s) k command,
          out := out s @ [Print_running command cf_id, Queue_put (step s) k command],
          pointer := Suc (pointer s)\<rparr>)"
  by (simp add: inner.simps [of sequence s])

text \<open>The five ways one round of the inner loop can go.\<close>

lemma inner_cases:
  obtains (read_raises) "length sequence \<le> pointer s"
  | (not_due) "pointer s < length sequence" "step s < fst (sequence ! pointer s)"
  | (put_raises) st cf_id command where "pointer s < length sequence"
      "sequence ! pointer s = (st, cf_id, command)" "st \<le> step s"
      "py_index (length (controlQueues s)) cf_id = None"
  | (last) st cf_id command k where "pointer s < length sequence"
      "sequence ! pointer s = (st, cf_id, command)" "st \<le> step s"
      "py_index (length (controlQueues s)) cf_id = Some k" "length sequence \<le> Suc (pointer s)"
  | (more) st cf_id command k where "pointer s < length sequence"
      "sequence ! pointer s = (st, cf_id, command)" "st \<le> step s"
      "py_index (length (controlQueues s)) cf_id = Some k" "Suc (pointer s) < length sequence"
proof (cases "length sequence \<le> pointer s")
  case True
  then show ?thesis by (rule read_raises)
next
  case False
  obtain st cf_id command where e: "sequence ! pointer s = (st, cf_id, command)"
    by (cases "sequence ! pointer s") auto
  show ?thesis
  proof (cases "st \<le> step s")
    case True
    show ?thesis
    proof (cases "py_index (length (controlQueues s)) cf_id")
      case None
      with False e True show ?thesis by (intro put_raises) auto
    next
      case (Some k)
      show ?thesis
      proof (cases "length sequence \<le> Suc (pointer s)")
        case True
        with False e \<open>st \<le> step s\<close> Some show ?thesis by (intro last) auto
      next
        case False
        with \<open>\<not> length sequence \<le> pointer s\<close> e \<open>st \<le> step s\<close> Some show ?thesis
          by (intro more) auto
      qed
    qed
  next
    case False
    with \<open>\<not> length sequence \<le> pointer s\<close> e show ?thesis by (intro not_due) auto
  qed
qed

lemma inner_Inr:
  "inner sequence s = Inr s' \<Longrightarrow>
     pointer s \<le> pointer s' \<and> step s' = step s \<and>
     (stop s' \<or> (pointer s' < length sequence \<and> step s < fst (sequence ! pointer s')))"
proof (induction "length sequence - pointer s" arbitrary: s rule: less_induct)
  case less
  show ?case
  proof (cases sequence s rule: inner_cases)
    case read_raises
    with less.prems show ?thesis by (simp add: inner_read_raises)
  next
    case not_due
    with less.prems show ?thesis by (auto simp: inner_not_due)
  next
    case (put_raises st cf_id command)
    with less.prems show ?thesis by (simp add: inner_put_raises)
  next
    case (last st cf_id command k)
    with less.prems show ?thesis by (auto simp: inner_last)
  next
    case (more st cf_id command k)
    let ?s2 = "s\<lparr>controlQueues := put (controlQueues s) k command,
                  out := out s @ [Print_running command cf_id, Queue_put (step s) k command],
                  pointer := Suc (pointer s)\<rparr>"
    from more less.prems have r: "inner sequence ?s2 = Inr s'"
      by (simp add: inner_more)
    have "length sequence - pointer ?s2 < length sequence - pointer s"
      using more by simp
    from less.hyps [OF this r] show ?thesis by simp
  qed
qed

text \<open>
  The outer loop \<^verbatim>\<open>while not stop: \<dots>\<close>: print the step, run the inner loop, advance
  the clock, sleep. It always ends: each round either sets \<^verbatim>\<open>stop\<close>, moves the cursor,
  or brings \<^verbatim>\<open>step\<close> one closer to the step of the entry at the cursor.
\<close>

function outer :: "entry list \<Rightarrow> sched \<Rightarrow> (pyerror \<times> sched) + sched" where
  "outer sequence s =
     (if stop s then Inr s
      else case inner sequence (s\<lparr>out := out s @ [Print_step (step s)]\<rparr>) of
             Inl e \<Rightarrow> Inl e
           | Inr s2 \<Rightarrow>
               outer sequence (s2\<lparr>step := step s2 + 1, out := out s2 @ [Sleep_STEP_TIME]\<rparr>))"
  by pat_completeness auto
termination
proof (relation "measures [\<lambda>(sequence, s). if stop s then 0 else 1,
                           \<lambda>(sequence, s). length sequence - pointer s,
                           \<lambda>(sequence, s). nat (fst (sequence ! pointer s) - step s)]",
       goal_cases)
  case 1
  show ?case by simp
next
  case (2 sequence s s2)
  from inner_Inr [OF 2(2)]
  have le: "pointer s \<le> pointer s2" and st: "step s2 = step s"
    and c: "stop s2 \<or> (pointer s2 < length sequence \<and> step s < fst (sequence ! pointer s2))"
    by simp_all
  show ?case
  proof (cases "stop s2")
    case True
    with 2(1) show ?thesis by simp
  next
    case False
    with c have lt: "pointer s2 < length sequence" and w: "step s < fst (sequence ! pointer s2)"
      by simp_all
    show ?thesis
    proof (cases "pointer s2 = pointer s")
      case True
      with 2(1) False st w show ?thesis by simp
    next
      case ne: False
      with le lt have "length sequence - pointer s2 < length sequence - pointer s" by arith
      with 2(1) False show ?thesis by simp
    qed
  qed
qed

declare outer.simps [simp del]

text \<open>The shutdown loop \<^verbatim>\<open>for ctrl in controlQueues: ctrl.put(Quit())\<close>.\<close>

definition quit_all :: "sched \<Rightarrow> sched" where
  "quit_all s =
     fold (\<lambda>k s. s\<lparr>controlQueues := put (controlQueues s) k Quit,
                    out := out s @ [Queue_put (step s) k Quit]\<rparr>)
          [0..<length (controlQueues s)] s"

text \<open>
  \<^verbatim>\<open>control_thread\<close>, with the globals \<^verbatim>\<open>sequence\<close> and \<^verbatim>\<open>controlQueues\<close> it reads as
  parameters.
\<close>

definition control_thread :: "entry list \<Rightarrow> command list list \<Rightarrow> (pyerror \<times> sched) + sched" where
  "control_thread sequence qs =
     (case outer sequence \<lparr>pointer = 0, step = 0, stop = False, controlQueues = qs, out = []\<rparr> of
        Inl e \<Rightarrow> Inl e
      | Inr s \<Rightarrow> Inr (quit_all s))"

text \<open>\<^verbatim>\<open>controlQueues = [Queue() for _ in range(len(uris))]\<close>\<close>

definition new_queues :: "'a list \<Rightarrow> command list list" where
  "new_queues uris = replicate (length uris) []"


section \<open>Floating point\<close>

text \<open>
  Python's \<^verbatim>\<open>float\<close> is IEEE binary64 and its \<^verbatim>\<open>+\<close>, \<^verbatim>\<open>-\<close>, \<^verbatim>\<open>*\<close> and \<^verbatim>\<open>/\<close> return the
  exact result rounded to the nearest float, ties to the even significand. \<open>rnd64\<close> is
  that rounding on the rationals: \<open>expo x\<close> is the position of the leading bit of \<open>x\<close>,
  the spacing of the floats around \<open>x\<close> is \<open>2 powi (expo x - 52)\<close>, and \<open>2 powi (- 1074)\<close>
  in the subnormal range. Infinities and NaN are outside the model: it describes the
  runs of the program whose numbers stay finite.
\<close>

definition half_even :: "rat \<Rightarrow> int" where
  "half_even x =
     (let f = \<lfloor>x\<rfloor>; d = x - of_int f
      in if d < 1 / 2 then f else if 1 / 2 < d then f + 1 else if even f then f else f + 1)"

definition expo :: "rat \<Rightarrow> int" where
  "expo x =
     (case quotient_of \<bar>x\<bar> of (p, q) \<Rightarrow>
        let d = bitlen p - bitlen q in if 2 powi d \<le> \<bar>x\<bar> then d else d - 1)"

definition rnd64 :: "rat \<Rightarrow> rat" where
  "rnd64 x =
     (if x = 0 then 0
      else let u = 2 powi (max (expo x) (- 1022) - 52) in of_int (half_even (x / u)) * u)"

definition fadd :: "num \<Rightarrow> num \<Rightarrow> num" where
  "fadd x y = rnd64 (x + y)"

definition fsub :: "num \<Rightarrow> num \<Rightarrow> num" where
  "fsub x y = rnd64 (x - y)"

definition fmul :: "num \<Rightarrow> num \<Rightarrow> num" where
  "fmul x y = rnd64 (x * y)"

text \<open>Division by a divisor known to be non-zero; the source's other division is guarded
  where it occurs.\<close>

definition fdiv :: "num \<Rightarrow> num \<Rightarrow> num" where
  "fdiv x y = rnd64 (x / y)"

text \<open>A Python integer meeting a float in an operation is converted first; the quotient
  \<^verbatim>\<open>a / b\<close> of two integers is the exact quotient, rounded once.\<close>

definition float_of_int :: "int \<Rightarrow> num" where
  "float_of_int i = rnd64 (of_int i)"

definition int_truediv :: "int \<Rightarrow> int \<Rightarrow> num" where
  "int_truediv a b = rnd64 (of_int a / of_int b)"

text \<open>\<^verbatim>\<open>int(x)\<close> of a float truncates towards zero.\<close>

definition py_int :: "num \<Rightarrow> int" where
  "py_int x = (if 0 \<le> x then \<lfloor>x\<rfloor> else \<lceil>x\<rceil>)"

text \<open>\<^verbatim>\<open>math.pi\<close> is the float nearest to \<open>\<pi>\<close>.\<close>

definition math_pi :: num where
  "math_pi = 884279719003555 / 281474976710656"

section \<open>The agent worker\<close>

text \<open>
  What a worker does to the outside, in order: the calls on the high level commander and
  on the parameter channel, its sleeps and its warning. The value written by
  \<^verbatim>\<open>set_value\<close> is a string: a literal, \<^verbatim>\<open>str\<close> of an integer, or \<^verbatim>\<open>str\<close> of the number in
  a command field (whose decimal rendering is not modelled).
\<close>

datatype param_value = Str string | Str_of_int int | Str_of_num num

datatype cf_event =
    Set_value string param_value
  | Takeoff_call num num
  | Land_call num num
  | Go_to num num num num num
  | Sleep num
  | Print_warning command string

text \<open>
  How a worker's run ends: it returned, it is blocked in \<^verbatim>\<open>control.get()\<close> on an empty
  queue, or an exception left it.
\<close>

datatype status = Returned | Blocked | Raised pyerror

record worker =
  events :: "cf_event list"
  status :: status
  unread :: "command list"

definition set_ring_color :: "num \<Rightarrow> num \<Rightarrow> num \<Rightarrow> num \<Rightarrow> num \<Rightarrow> cf_event list" where
  "set_ring_color r g b intensity time =
     (let r = fmul r intensity;
          g = fmul g intensity;
          b = fmul b intensity;
          color = push_bit 16 (py_int r) OR push_bit 8 (py_int g) OR py_int b
      in [Set_value ''ring.fadeTime'' (Str_of_num time),
          Set_value ''ring.fadeColor'' (Str_of_int color)])"

definition activate_mellinger_controller :: "bool \<Rightarrow> cf_event list" where
  "activate_mellinger_controller use_mellinger =
     (let controller = (if use_mellinger then 2 else 1)
      in [Set_value ''stabilizer.controller'' (Str_of_int controller)])"

text \<open>
  \<^verbatim>\<open>time.sleep(secs)\<close>. The interpreter first converts the length to its clock's unit
  and later hands it to the operating system; either step raises (\<^verbatim>\<open>OverflowError\<close>,
  \<^verbatim>\<open>OSError\<close>) when the length is too large, at limits that depend on the interpreter
  and the system: \<open>sleep_error\<close>, a parameter of the model, says for each length which
  error, if any, they raise. Between the two steps a negative length raises
  \<^verbatim>\<open>ValueError\<close>. The result is the exception raised, or \<open>None\<close> when the call returns
  after the delay.
\<close>

definition time_sleep :: "(num \<Rightarrow> pyerror option) \<Rightarrow> num \<Rightarrow> pyerror option" where
  "time_sleep sleep_error secs =
     (case sleep_error secs of
        Some e \<Rightarrow> Some e
      | None \<Rightarrow> if secs < 0 then Some ValueError else None)"

text \<open>
  The \<^verbatim>\<open>Helix\<close> branch. \<^verbatim>\<open>math.cos\<close> and \<^verbatim>\<open>math.sin\<close> are functions of the C library,
  not specified bit for bit, and are parameters \<open>mcos\<close> and \<open>msin\<close> of the model.
  \<open>sweep\<close> is the loop \<^verbatim>\<open>for counter in range(1, No_setpoints + 1)\<close> on the counters
  still to come; inside it \<^verbatim>\<open>No_setpoints\<close> is at least 1, so its divisions cannot
  raise. A \<open>Sleep\<close> event is a sleep that returned.
\<close>

fun sweep :: "(num \<Rightarrow> num) \<Rightarrow> (num \<Rightarrow> num) \<Rightarrow> (num \<Rightarrow> pyerror option) \<Rightarrow>
    num \<Rightarrow> num \<Rightarrow> num \<Rightarrow> num \<Rightarrow> int \<Rightarrow> num \<Rightarrow> int list \<Rightarrow> cf_event list \<times> pyerror option" where
  "sweep mcos msin sleep_error d z zf theta0 No_setpoints setpoint_period [] = ([], None)"
| "sweep mcos msin sleep_error d z zf theta0 No_setpoints setpoint_period (counter # counters) =
     (let x_setpoint = fmul (fdiv d 2)
            (mcos (fadd (fdiv (fmul (fmul 2 math_pi) (float_of_int counter))
                              (float_of_int No_setpoints)) theta0));
          y_setpoint = fmul (fdiv d 2)
            (msin (fadd (fdiv (fmul (fmul 2 math_pi) (float_of_int counter))
                              (float_of_int No_setpoints)) theta0));
          z_setpoint = fadd z (fmul (int_truediv counter No_setpoints) (fsub zf z));
          psi_setpoint = fsub (fadd theta0 (fdiv (fmul (fmul 2 math_pi) (float_of_int counter))
                                                 (float_of_int No_setpoints)))
                              (fdiv math_pi 2);
          go = Go_to x_setpoint y_setpoint z_setpoint psi_setpoint setpoint_period
      in case time_sleep sleep_error setpoint_period of
           Some e \<Rightarrow> ([go], Some e)
         | None \<Rightarrow>
             (case sweep mcos msin sleep_error d z zf theta0 No_setpoints setpoint_period
                     counters of
                (evs, r) \<Rightarrow> (go # Sleep setpoint_period # evs, r)))"

definition helix :: "(num \<Rightarrow> num) \<Rightarrow> (num \<Rightarrow> num) \<Rightarrow> (num \<Rightarrow> pyerror option) \<Rightarrow>
    num \<Rightarrow> num \<Rightarrow> num \<Rightarrow> num \<Rightarrow> num \<Rightarrow> int \<Rightarrow> num \<Rightarrow> cf_event list \<times> pyerror option" where
  "helix mcos msin sleep_error d z zf theta0 circle_period No_setpoints time =
     (if No_setpoints = 0 then ([], Some ZeroDivisionError)
      else
        let setpoint_period = fdiv circle_period (float_of_int No_setpoints);
            x_setpoint = fmul (fdiv d 2) (mcos theta0);
            y_setpoint = fmul (fdiv d 2) (msin theta0);
            z_setpoint = z;
            psi_setpoint = fsub theta0 (fdiv math_pi 2);
            go = Go_to x_setpoint y_setpoint z_setpoint psi_setpoint time
        in case time_sleep sleep_error (fadd time 1) of
             Some e \<Rightarrow> ([go], Some e)
           | None \<Rightarrow>
               (case sweep mcos msin sleep_error d z zf theta0 No_setpoints setpoint_period
                       [1..No_setpoints] of
                  (evs, r) \<Rightarrow> (go # Sleep (fadd time 1) # evs, r)))"

text \<open>
  The loop \<^verbatim>\<open>while True: command = control.get() \<dots>\<close>, run on the commands that reach
  the queue, oldest first. \<open>uri\<close> is the value of \<^verbatim>\<open>cf.uri\<close>, an attribute of the object
  that the flight library hands to the worker. \<open>after evs w\<close> is the run that makes the
  calls \<open>evs\<close> and then goes on as \<open>w\<close>.
\<close>

definition after :: "cf_event list \<Rightarrow> worker \<Rightarrow> worker" where
  "after evs w = w\<lparr>events := evs @ events w\<rparr>"

fun worker_loop :: "(num \<Rightarrow> num) \<Rightarrow> (num \<Rightarrow> num) \<Rightarrow> (num \<Rightarrow> pyerror option) \<Rightarrow> string \<Rightarrow>
    command list \<Rightarrow> worker" where
  "worker_loop mcos msin sleep_error uri [] = \<lparr>events = [], status = Blocked, unread = []\<rparr>"
| "worker_loop mcos msin sleep_error uri (Quit # control) =
     \<lparr>events = [], status = Returned, unread = control\<rparr>"
| "worker_loop mcos msin sleep_error uri (Takeoff height time # control) =
     after [Takeoff_call height time] (worker_loop mcos msin sleep_error uri control)"
| "worker_loop mcos msin sleep_error uri (Land time # control) =
     after [Land_call 0 time] (worker_loop mcos msin sleep_error uri control)"
| "worker_loop mcos msin sleep_error uri (Goto x y z time # control) =
     after [Go_to x y z 0 time] (worker_loop mcos msin sleep_error uri control)"
| "worker_loop mcos msin sleep_error uri (Helix d z zf theta0 circle_period No_setpoints time # control) =
     (case helix mcos msin sleep_error d z zf theta0 circle_period No_setpoints time of
        (evs, Some e) \<Rightarrow> \<lparr>events = evs, status = Raised e, unread = control\<rparr>
      | (evs, None) \<Rightarrow> after evs (worker_loop mcos msin sleep_error uri control))"
| "worker_loop mcos msin sleep_error uri (Ring r g b intensity time # control) =
     after (set_ring_color r g b intensity time) (worker_loop mcos msin sleep_error uri control)"
| "worker_loop mcos msin sleep_error uri (Other c # control) =
     after [Print_warning (Other c) uri] (worker_loop mcos msin sleep_error uri control)"

text \<open>
  \<^verbatim>\<open>crazyflie_control\<close>: the queue is found in the global \<^verbatim>\<open>controlQueues\<close> (here
  \<open>queues\<close>) by the position of \<^verbatim>\<open>cf.link_uri\<close> in \<^verbatim>\<open>uris\<close> (\<^verbatim>\<open>list.index\<close> raises
  \<^verbatim>\<open>ValueError\<close> when it is absent), the controller and the ring are set up, and the loop
  runs.
\<close>

fun list_index :: "'a list \<Rightarrow> 'a \<Rightarrow> nat option" where
  "list_index [] x = None"
| "list_index (y # ys) x = (if y = x then Some 0 else map_option Suc (list_index ys x))"

definition crazyflie_control ::
  "(num \<Rightarrow> num) \<Rightarrow> (num \<Rightarrow> num) \<Rightarrow> (num \<Rightarrow> pyerror option) \<Rightarrow> string list \<Rightarrow>
   command list list \<Rightarrow> string \<Rightarrow> string \<Rightarrow> worker" where
  "crazyflie_control mcos msin sleep_error uris queues link_uri uri =
     (case list_index uris link_uri of
        None \<Rightarrow> \<lparr>events = [], status = Raised ValueError, unread = []\<rparr>
      | Some k \<Rightarrow>
          if length queues \<le> k
          then \<lparr>events = [], status = Raised IndexError, unread = []\<rparr>
          else after (activate_mellinger_controller False @ set_ring_color 0 0 0 0 0 @
                      [Set_value ''ring.effect'' (Str ''14'')])
                 (worker_loop mcos msin sleep_error uri (queues ! k)))"


section \<open>Notions used to state the properties\<close>

text \<open>The puts among the events of a run, oldest first: the tick, the queue, the command.\<close>

fun puts :: "sched_event list \<Rightarrow> (int \<times> nat \<times> command) list" where
  "puts [] = []"
| "puts (Queue_put t k c # evs) = (t, k, c) # puts evs"
| "puts (_ # evs) = puts evs"

text \<open>The state in which a run of the scheduler ended, whether it returned or raised.\<close>

definition final_state :: "(pyerror \<times> sched) + sched \<Rightarrow> sched" where
  "final_state r = (case r of Inl (e, s) \<Rightarrow> s | Inr s \<Rightarrow> s)"

text \<open>The commands of the entries that Python's indexing sends to queue \<open>j\<close> of \<open>n\<close>.\<close>

definition addressed :: "nat \<Rightarrow> nat \<Rightarrow> entry list \<Rightarrow> command list" where
  "addressed n j es = [c. (st, cf_id, c) \<leftarrow> es, py_index n cf_id = Some j]"

text \<open>
  The invariant of both loops. The entries before the cursor, and only they, have been
  put, in table order, each while \<^verbatim>\<open>step\<close> was at least its own step; the ticks of the
  puts never decrease; every queue holds what it held at the start followed by the
  commands sent to it; \<^verbatim>\<open>stop\<close> is set exactly at the end of a non-empty table. When
  the table is sorted by step, no entry waits: each was put at the tick of its own step
  (at tick 0 when that step is negative), and the entry at the cursor is not overdue.
\<close>

definition sched_inv :: "entry list \<Rightarrow> command list list \<Rightarrow> sched \<Rightarrow> bool" where
  "sched_inv sequence qs0 s \<longleftrightarrow>
     length (puts (out s)) = pointer s \<and> pointer s \<le> length sequence \<and>
     (\<forall>i<pointer s. \<exists>t k. puts (out s) ! i = (t, k, snd (snd (sequence ! i))) \<and>
         py_index (length qs0) (fst (snd (sequence ! i))) = Some k \<and>
         fst (sequence ! i) \<le> t \<and> t \<le> step s) \<and>
     sorted (map fst (puts (out s))) \<and>
     length (controlQueues s) = length qs0 \<and>
     (\<forall>j<length qs0. controlQueues s ! j =
         qs0 ! j @ addressed (length qs0) j (take (pointer s) sequence)) \<and>
     (stop s \<longrightarrow> pointer s = length sequence) \<and>
     (sequence \<noteq> [] \<longrightarrow> \<not> stop s \<longrightarrow> pointer s < length sequence) \<and>
     0 \<le> step s \<and>
     (sorted (map fst sequence) \<longrightarrow>
        (\<forall>i<pointer s. fst (puts (out s) ! i) = max 0 (fst (sequence ! i))) \<and>
        (pointer s < length sequence \<longrightarrow> step s = 0 \<or> step s \<le> fst (sequence ! pointer s)))"

text \<open>The state left by a put on a queue that does not exist.\<close>

definition put_failed :: "entry list \<Rightarrow> sched \<Rightarrow> bool" where
  "put_failed sequence s \<longleftrightarrow>
     pointer s < length sequence \<and>
     (case sequence ! pointer s of (st, cf_id, c) \<Rightarrow>
        st \<le> step s \<and> py_index (length (controlQueues s)) cf_id = None \<and>
        out s \<noteq> [] \<and> last (out s) = Print_running c cf_id)"



text \<open>The way-points among the events of a worker.\<close>

fun waypoints :: "cf_event list \<Rightarrow> cf_event list" where
  "waypoints [] = []"
| "waypoints (Go_to x y z psi t # evs) = Go_to x y z psi t # waypoints evs"
| "waypoints (_ # evs) = waypoints evs"


section \<open>The scheduler: invariant and results\<close>

lemma puts_append [simp]: "puts (xs @ ys) = puts xs @ puts ys"
  by (induction xs rule: puts.induct) auto

lemma addressed_simps [simp]:
  "addressed n j [] = []"
  "addressed n j (es @ es') = addressed n j es @ addressed n j es'"
  "addressed n j [(st, cf_id, c)] = (if py_index n cf_id = Some j then [c] else [])"
  by (simp_all add: addressed_def)

lemma py_index_less: "py_index n i = Some k \<Longrightarrow> k < n"
  by (auto simp: py_index_def Let_def split: if_splits)

lemma length_put [simp]: "length (put qs k c) = length qs"
  by (simp add: put_def)

lemma nth_put: "k < length qs \<Longrightarrow> j < length qs \<Longrightarrow>
  put qs k c ! j = (if j = k then qs ! j @ [c] else qs ! j)"
  by (simp add: put_def nth_list_update)

lemma sched_inv_print:
  "sched_inv sequence qs0 s \<Longrightarrow> puts evs = [] \<Longrightarrow>
   sched_inv sequence qs0 (s\<lparr>out := out s @ evs\<rparr>)"
  by (simp add: sched_inv_def)

lemma sched_inv_tick:
  "sched_inv sequence qs0 s \<Longrightarrow>
   pointer s < length sequence \<longrightarrow> step s < fst (sequence ! pointer s) \<Longrightarrow>
   sched_inv sequence qs0 (s\<lparr>step := step s + 1, out := out s @ [Sleep_STEP_TIME]\<rparr>)"
  unfolding sched_inv_def by (auto intro: order_trans)

lemma sched_inv_tick_le:
  assumes "sched_inv sequence qs0 s" "(t, k, c) \<in> set (puts (out s))"
  shows "t \<le> step s"
proof -
  from assms(2) obtain i where i: "i < length (puts (out s))" "puts (out s) ! i = (t, k, c)"
    by (auto simp: in_set_conv_nth)
  with assms(1) show ?thesis by (fastforce simp: sched_inv_def)
qed

lemma sched_inv_put:
  assumes "sched_inv sequence qs0 s" "pointer s < length sequence"
    "sequence ! pointer s = (st, cf_id, command)" "st \<le> step s"
    "py_index (length (controlQueues s)) cf_id = Some k"
    "b \<longleftrightarrow> length sequence \<le> Suc (pointer s)" "puts evs = []"
  shows "sched_inv sequence qs0
     (s\<lparr>controlQueues := put (controlQueues s) k command,
        out := out s @ [Print_running command cf_id, Queue_put (step s) k command] @ evs,
        pointer := Suc (pointer s), stop := b\<rparr>)"
proof -
  have nxt: "fst (sequence ! pointer s) \<le> fst (sequence ! Suc (pointer s))"
    if "sorted (map fst sequence)" "Suc (pointer s) < length sequence"
    using that sorted_nth_mono [of "map fst sequence" "pointer s" "Suc (pointer s)"] by simp
  show ?thesis
    using assms sched_inv_tick_le [OF assms(1)] py_index_less [OF assms(5)] nxt
    unfolding sched_inv_def
    by (auto simp: nth_append less_Suc_eq sorted_append take_Suc_conv_app_nth nth_put)
qed

lemma inner_inv:
  "sched_inv sequence qs0 s \<Longrightarrow> sched_inv sequence qs0 (final_state (inner sequence s))"
proof (induction "length sequence - pointer s" arbitrary: s rule: less_induct)
  case less
  show ?case
  proof (cases sequence s rule: inner_cases)
    case read_raises
    with less.prems show ?thesis by (simp add: inner_read_raises final_state_def)
  next
    case not_due
    with less.prems show ?thesis by (simp add: inner_not_due final_state_def)
  next
    case (put_raises st cf_id command)
    with less.prems sched_inv_print [OF less.prems, of "[Print_running command cf_id]"]
    show ?thesis by (simp add: inner_put_raises final_state_def)
  next
    case (last st cf_id command k)
    from sched_inv_put [OF less.prems last(1-4), of True "[Print_end]"] last
    show ?thesis by (simp add: inner_last final_state_def)
  next
    case (more st cf_id command k)
    let ?s2 = "s\<lparr>controlQueues := put (controlQueues s) k command,
                  out := out s @ [Print_running command cf_id, Queue_put (step s) k command],
                  pointer := Suc (pointer s)\<rparr>"
    from sched_inv_put [OF less.prems more(1-4), of False "[]"] more less.prems
    have i: "sched_inv sequence qs0 ?s2" by (simp add: sched_inv_def)
    have "length sequence - pointer ?s2 < length sequence - pointer s"
      using more by simp
    from less.hyps [OF this i] more show ?thesis by (simp add: inner_more)
  qed
qed

lemma outer_inv:
  "sched_inv sequence qs0 s \<Longrightarrow> sched_inv sequence qs0 (final_state (outer sequence s))"
proof (induction sequence s rule: outer.induct)
  case (1 sequence s)
  show ?case
  proof (cases "stop s")
    case True
    with "1.prems" show ?thesis by (simp add: outer.simps [of sequence s] final_state_def)
  next
    case False
    let ?s1 = "s\<lparr>out := out s @ [Print_step (step s)]\<rparr>"
    have i1: "sched_inv sequence qs0 ?s1"
      using sched_inv_print [OF "1.prems", of "[Print_step (step s)]"] by simp
    show ?thesis
    proof (cases "inner sequence ?s1")
      case (Inl e)
      with inner_inv [OF i1] False show ?thesis
        by (simp add: outer.simps [of sequence s] final_state_def)
    next
      case (Inr s2)
      with inner_inv [OF i1] have i2: "sched_inv sequence qs0 s2" by (simp add: final_state_def)
      from inner_Inr [OF Inr] i2
      have "pointer s2 < length sequence \<longrightarrow> step s2 < fst (sequence ! pointer s2)"
        by (auto simp: sched_inv_def)
      from "1.IH" [OF False Inr sched_inv_tick [OF i2 this]] False Inr show ?thesis
        by (simp add: outer.simps [of sequence s])
    qed
  qed
qed

lemma inner_Inl:
  "inner sequence s = Inl (e, s') \<Longrightarrow>
   e = IndexError \<and> stop s' = stop s \<and>
   (length sequence \<le> pointer s \<and> s' = s \<or> put_failed sequence s')"
proof (induction "length sequence - pointer s" arbitrary: s rule: less_induct)
  case less
  show ?case
  proof (cases sequence s rule: inner_cases)
    case read_raises
    with less.prems show ?thesis by (simp add: inner_read_raises)
  next
    case not_due
    with less.prems show ?thesis by (simp add: inner_not_due)
  next
    case (put_raises st cf_id command)
    with less.prems show ?thesis by (auto simp: inner_put_raises put_failed_def)
  next
    case (last st cf_id command k)
    with less.prems show ?thesis by (simp add: inner_last)
  next
    case (more st cf_id command k)
    let ?s2 = "s\<lparr>controlQueues := put (controlQueues s) k command,
                  out := out s @ [Print_running command cf_id, Queue_put (step s) k command],
                  pointer := Suc (pointer s)\<rparr>"
    from more less.prems have r: "inner sequence ?s2 = Inl (e, s')"
      by (simp add: inner_more)
    have "length sequence - pointer ?s2 < length sequence - pointer s"
      using more by simp
    from less.hyps [OF this r] more show ?thesis by simp
  qed
qed

lemma outer_Inr: "outer sequence s = Inr s' \<Longrightarrow> stop s'"
proof (induction sequence s rule: outer.induct)
  case (1 sequence s)
  then show ?case
    by (cases "stop s"; cases "inner sequence (s\<lparr>out := out s @ [Print_step (step s)]\<rparr>)")
       (auto simp: outer.simps [of sequence s])
qed

lemma outer_Inl:
  "outer sequence s = Inl (e, s') \<Longrightarrow>
   e = IndexError \<and> \<not> stop s' \<and> (length sequence \<le> pointer s' \<or> put_failed sequence s')"
proof (induction sequence s rule: outer.induct)
  case (1 sequence s)
  show ?case
  proof (cases "stop s")
    case True
    with "1.prems" show ?thesis by (simp add: outer.simps [of sequence s])
  next
    case False
    let ?s1 = "s\<lparr>out := out s @ [Print_step (step s)]\<rparr>"
    show ?thesis
    proof (cases "inner sequence ?s1")
      case (Inl x)
      with "1.prems" False have "inner sequence ?s1 = Inl (e, s')"
        by (simp add: outer.simps [of sequence s])
      from inner_Inl [OF this] False show ?thesis by auto
    next
      case (Inr s2)
      with "1.prems" False
      have "outer sequence (s2\<lparr>step := step s2 + 1, out := out s2 @ [Sleep_STEP_TIME]\<rparr>)
            = Inl (e, s')"
        by (simp add: outer.simps [of sequence s])
      from "1.IH" [OF False Inr this] show ?thesis .
    qed
  qed
qed

lemma quit_fold:
  "m \<le> length (controlQueues s) \<Longrightarrow>
   fold (\<lambda>k s. s\<lparr>controlQueues := put (controlQueues s) k Quit,
                  out := out s @ [Queue_put (step s) k Quit]\<rparr>) [0..<m] s =
   s\<lparr>controlQueues := map (\<lambda>q. q @ [Quit]) (take m (controlQueues s)) @ drop m (controlQueues s),
     out := out s @ map (\<lambda>k. Queue_put (step s) k Quit) [0..<m]\<rparr>"
proof (induction m)
  case 0
  then show ?case by simp
next
  case (Suc m)
  then have m: "m < length (controlQueues s)" by simp
  have "put (map (\<lambda>q. q @ [Quit]) (take m (controlQueues s)) @ drop m (controlQueues s)) m Quit
        = map (\<lambda>q. q @ [Quit]) (take (Suc m) (controlQueues s)) @ drop (Suc m) (controlQueues s)"
    using m by (simp add: put_def list_update_append nth_append take_Suc_conv_app_nth
        Cons_nth_drop_Suc [symmetric])
  with Suc m show ?case by simp
qed

lemma quit_all_eq:
  "quit_all s = s\<lparr>controlQueues := map (\<lambda>q. q @ [Quit]) (controlQueues s),
                   out := out s @ map (\<lambda>k. Queue_put (step s) k Quit)
                                      [0..<length (controlQueues s)]\<rparr>"
  unfolding quit_all_def by (subst quit_fold) simp_all

lemma puts_quit_all:
  "puts (out (quit_all s)) =
   puts (out s) @ map (\<lambda>k. (step s, k, Quit)) [0..<length (controlQueues s)]"
proof -
  have "puts (map (\<lambda>k. Queue_put t k Quit) ks) = map (\<lambda>k. (t, k, Quit)) ks" for t ks
    by (induction ks) auto
  then show ?thesis by (simp add: quit_all_eq)
qed

text \<open>
  Every run of the scheduler ends, in one of two ways: the table was dispatched to its
  end and the shutdown loop ran, or an \<^verbatim>\<open>IndexError\<close> left the loops, raised by the first
  read of an empty table or by a put on a queue that does not exist.
\<close>

lemma control_thread_cases:
  obtains (finished) s where "control_thread sequence qs = Inr (quit_all s)"
      "sched_inv sequence qs s" "stop s" "pointer s = length sequence"
  | (raised) s where "control_thread sequence qs = Inl (IndexError, s)"
      "sched_inv sequence qs s" "\<not> stop s" "sequence = [] \<or> put_failed sequence s"
proof -
  let ?s0 = "\<lparr>pointer = 0, step = 0, stop = False, controlQueues = qs, out = []\<rparr>"
  have i0: "sched_inv sequence qs ?s0" by (simp add: sched_inv_def)
  show ?thesis
  proof (cases "outer sequence ?s0")
    case (Inl x)
    obtain e s where x: "x = (e, s)" by (cases x)
    from outer_inv [OF i0] Inl x
    have i: "sched_inv sequence qs s" by (simp add: final_state_def)
    from outer_Inl [of sequence ?s0 e s] Inl x
    have e: "e = IndexError" "\<not> stop s" "length sequence \<le> pointer s \<or> put_failed sequence s"
      by simp_all
    from i e(2,3) have "sequence = [] \<or> put_failed sequence s"
      by (auto simp: sched_inv_def)
    with Inl x e i show ?thesis
      by (intro raised [of s]) (simp_all add: control_thread_def)
  next
    case (Inr s)
    from outer_inv [OF i0] Inr
    have i: "sched_inv sequence qs s" by (simp add: final_state_def)
    from outer_Inr [OF Inr] have "stop s" .
    with i Inr show ?thesis
      by (intro finished [of s]) (simp_all add: control_thread_def sched_inv_def)
  qed
qed

lemma py_index_in_range:
  "0 \<le> i \<Longrightarrow> i < int n \<Longrightarrow> py_index n i = Some j \<longleftrightarrow> i = int j"
  by (auto simp: py_index_def)

lemma py_index_None_iff: "py_index n i = None \<longleftrightarrow> i < - int n \<or> int n \<le> i"
  by (auto simp: py_index_def Let_def)

lemma py_index_Some_iff:
  "j < n \<Longrightarrow> py_index n i = Some j \<longleftrightarrow> i = int j \<or> i = int j - int n"
  by (auto simp: py_index_def Let_def)

lemma addressed_in_range:
  "\<forall>(st, cf_id, c) \<in> set es. 0 \<le> cf_id \<and> cf_id < int n \<Longrightarrow>
   addressed n j es = [c. (st, cf_id, c) \<leftarrow> es, cf_id = int j]"
  by (induction es) (auto simp: addressed_def py_index_in_range)

lemma addressed_wrapped:
  "j < n \<Longrightarrow> addressed n j es = [c. (st, cf_id, c) \<leftarrow> es, cf_id = int j \<or> cf_id = int j - int n]"
  by (induction es) (auto simp: addressed_def py_index_Some_iff)

section \<open>Rounding: bounds\<close>

lemma half_even_le: "x \<le> of_int n \<Longrightarrow> half_even x \<le> n"
proof -
  assume a: "x \<le> of_int n"
  show ?thesis
  proof (cases "x = of_int n")
    case True
    then show ?thesis by (simp add: half_even_def)
  next
    case False
    with a have "x < of_int n" by simp
    then have "\<lfloor>x\<rfloor> < n" by (simp add: floor_less_iff)
    then show ?thesis by (auto simp: half_even_def Let_def)
  qed
qed

lemma half_even_nonneg: "0 \<le> x \<Longrightarrow> 0 \<le> half_even x"
  by (auto simp: half_even_def Let_def)

text \<open>The leading bit of a non-zero number is not above the number.\<close>

lemma expo_le:
  assumes "x \<noteq> 0" shows "2 powi (expo x) \<le> \<bar>x\<bar>"
proof -
  obtain p q where pq: "quotient_of \<bar>x\<bar> = (p, q)" by (cases "quotient_of \<bar>x\<bar>")
  then have q: "0 < q" and x: "\<bar>x\<bar> = of_int p / of_int q"
    by (simp_all add: quotient_of_denom_pos quotient_of_div)
  from assms have "0 < \<bar>x\<bar>" by simp
  with x q have p: "0 < p" by (simp add: zero_less_divide_iff)
  let ?d = "bitlen p - bitlen q"
  show ?thesis
  proof (cases "2 powi ?d \<le> \<bar>x\<bar>")
    case True
    with pq show ?thesis by (simp add: expo_def)
  next
    case False
    have bp: "2 ^ nat (bitlen p - 1) \<le> p" using bitlen_bounds [OF p] by simp
    have bq: "q < 2 ^ nat (bitlen q)" using bitlen_bounds [OF q] by simp
    have p1: "1 \<le> bitlen p" using p by (simp add: bitlen_alt_def)
    have q0: "0 \<le> bitlen q" by (rule bitlen_nonneg)
    have "(2::rat) powi (?d - 1) = 2 powi (bitlen p - 1) / 2 powi (bitlen q)"
      by (simp add: power_int_diff)
    also have "\<dots> = 2 ^ nat (bitlen p - 1) / 2 ^ nat (bitlen q)"
      using p1 q0 by (simp add: power_int_def)
    also have "\<dots> \<le> of_int p / 2 ^ nat (bitlen q)"
    proof -
      have "(of_int (2 ^ nat (bitlen p - 1)) :: rat) \<le> of_int p"
        using bp by (simp only: of_int_le_iff)
      then show ?thesis by (simp add: divide_right_mono)
    qed
    also have "\<dots> \<le> of_int p / of_int q"
    proof -
      have "(of_int q :: rat) \<le> of_int (2 ^ nat (bitlen q))"
        using bq by (simp only: of_int_le_iff)
      with p q show ?thesis by (simp add: frac_le)
    qed
    finally show ?thesis using False pq x by (simp add: expo_def Let_def)
  qed
qed

lemma rnd64_nonneg: "0 \<le> x \<Longrightarrow> 0 \<le> rnd64 x"
  by (auto simp: rnd64_def Let_def intro!: mult_nonneg_nonneg half_even_nonneg divide_nonneg_nonneg)

text \<open>Rounding does not cross an integer below \<open>2 ^ 53\<close>: every such integer is a float.\<close>

lemma rnd64_le_int:
  assumes "0 < x" "x \<le> of_int m" "m < 2 ^ 53"
  shows "rnd64 x \<le> of_int m"
proof -
  let ?e = "max (expo x) (- 1022)"
  let ?u = "(2::rat) powi (?e - 52)"
  have "2 powi (expo x) \<le> x" using expo_le [of x] assms(1) by simp
  also have "x \<le> of_int m" by (rule assms(2))
  also have "(of_int m :: rat) < of_int (2 ^ 53)" using assms(3) by (simp only: of_int_less_iff)
  finally have "(2::rat) powi (expo x) < 2 powi 53" by simp
  then have "expo x < 53" by (intro power_int_le_imp_less_exp [of "2::rat"]) simp_all
  then have e: "?e - 52 \<le> 0" by simp
  have u: "0 < ?u" by simp
  have inv: "1 / ?u = of_int (2 ^ nat (52 - ?e))"
    using e by (simp add: power_int_def field_simps)
  have "x / ?u \<le> of_int m / ?u" using assms(2) u by (simp add: divide_right_mono)
  also have "of_int m / ?u = of_int (m * 2 ^ nat (52 - ?e))"
    using inv by (simp add: field_simps)
  finally have "half_even (x / ?u) \<le> m * 2 ^ nat (52 - ?e)" by (rule half_even_le)
  then have "(of_int (half_even (x / ?u)) :: rat) \<le> of_int (m * 2 ^ nat (52 - ?e))"
    by (simp only: of_int_le_iff)
  then have "of_int (half_even (x / ?u)) * ?u \<le> of_int (m * 2 ^ nat (52 - ?e)) * ?u"
    using u by (simp add: mult_right_mono)
  also have "of_int (m * 2 ^ nat (52 - ?e)) * ?u = of_int m"
    using inv u by (simp add: field_simps)
  finally show ?thesis using assms(1) by (simp add: rnd64_def Let_def)
qed


text \<open>
  Some values of the rounding: the floats written \<^verbatim>\<open>0.1\<close> and \<^verbatim>\<open>0.7\<close> in Python, and
  two ties, each going to the even significand.
\<close>

lemma rnd64_examples:
  "rnd64 (1 / 10) = 3602879701896397 / 36028797018963968"
  "rnd64 (7 / 10) = 3152519739159347 / 4503599627370496"
  "rnd64 (2 ^ 53 + 1) = 2 ^ 53"
  "rnd64 (2 ^ 53 + 3) = 2 ^ 53 + 4"
  by code_simp+

lemma py_int_range: "0 \<le> x \<Longrightarrow> x \<le> of_int m \<Longrightarrow> 0 \<le> py_int x \<and> py_int x \<le> m"
  by (simp add: py_int_def le_floor_iff floor_le_iff)

lemma channel_range:
  assumes "0 \<le> r" "r \<le> 255" "0 \<le> intensity" "intensity \<le> 1"
  shows "0 \<le> py_int (fmul r intensity) \<and> py_int (fmul r intensity) \<le> 255"
proof -
  have nn: "0 \<le> r * intensity" using assms by simp
  have "r * intensity \<le> 255 * 1" using assms by (intro mult_mono) simp_all
  then have le: "r * intensity \<le> of_int 255" by simp
  have "rnd64 (r * intensity) \<le> of_int 255"
  proof (cases "r * intensity = 0")
    case True
    then show ?thesis by (simp add: rnd64_def)
  next
    case False
    with nn have "0 < r * intensity" by (simp only: less_le) simp
    from rnd64_le_int [OF this le] show ?thesis by simp
  qed
  with rnd64_nonneg [OF nn] show ?thesis
    unfolding fmul_def by (intro py_int_range) simp_all
qed

lemma pack_channels:
  fixes R G B :: int
  assumes "0 \<le> R" "R \<le> 255" "0 \<le> G" "G \<le> 255" "0 \<le> B" "B \<le> 255"
  shows "push_bit 16 R OR push_bit 8 G OR B = R * 65536 + G * 256 + B"
proof -
  have R: "take_bit 8 R = R" and G: "take_bit 8 G = G" and B: "take_bit 8 B = B"
    using assms by (simp_all add: take_bit_int_eq_self)
  have 1: "push_bit 8 (take_bit 8 G) + take_bit 8 B = push_bit 8 (take_bit 8 G) OR take_bit 8 B"
    by (rule disjunctive_add_eq_or) (auto simp: bit_eq_iff bit_simps)
  have 2: "push_bit 16 (take_bit 8 R) + (push_bit 8 (take_bit 8 G) OR take_bit 8 B) =
           push_bit 16 (take_bit 8 R) OR (push_bit 8 (take_bit 8 G) OR take_bit 8 B)"
    by (rule disjunctive_add_eq_or) (auto simp: bit_eq_iff bit_simps)
  from 1 2 show ?thesis unfolding R G B by (simp add: push_bit_eq_mult or.assoc)
qed

section \<open>The worker: the Helix expansion\<close>



lemma events_after [simp]:
  "events (after evs w) = evs @ events w"
  "status (after evs w) = status w"
  "unread (after evs w) = unread w"
  by (simp_all add: after_def)



lemma waypoints_append [simp]: "waypoints (xs @ ys) = waypoints xs @ waypoints ys"
  by (induction xs rule: waypoints.induct) auto






section \<open>The scheduler: the claims\<close>

text \<open>
  C1 (as amended). For every non-empty choreography table whose agent ids all index a
  queue (\<open>0 \<le> cf_id < \<close> number of queues), the scheduler returns normally, and each
  queue then holds what it held before, followed by exactly the commands of the table
  entries addressed to that agent, in table order (so with the same multiset), followed
  by one \<open>Quit\<close>. An agent that no entry names receives just the \<open>Quit\<close>.
\<close>

theorem scheduler_delivers_in_table_order:
  assumes "sequence \<noteq> []"
    and "\<forall>(st, cf_id, c) \<in> set sequence. 0 \<le> cf_id \<and> cf_id < int (length qs)"
  shows "\<exists>s. control_thread sequence qs = Inr s \<and> length (controlQueues s) = length qs \<and>
           (\<forall>j<length qs.
              controlQueues s ! j =
                qs ! j @ [c. (st, cf_id, c) \<leftarrow> sequence, cf_id = int j] @ [Quit] \<and>
              mset (controlQueues s ! j) =
                mset (qs ! j) + mset [c. (st, cf_id, c) \<leftarrow> sequence, cf_id = int j] + {#Quit#})"
proof (cases rule: control_thread_cases [where sequence = sequence and qs = qs])
  case (finished s)
  from finished(2,4) have len: "length (controlQueues s) = length qs"
    and q: "\<forall>j<length qs. controlQueues s ! j = qs ! j @ addressed (length qs) j sequence"
    by (simp_all add: sched_inv_def)
  from q len assms(2) have
    "\<forall>j<length qs. controlQueues (quit_all s) ! j =
        qs ! j @ [c. (st, cf_id, c) \<leftarrow> sequence, cf_id = int j] @ [Quit]"
    by (simp add: quit_all_eq addressed_in_range)
  with finished(1) len show ?thesis by (simp add: quit_all_eq)
next
  case (raised s)
  with assms(1) have f: "put_failed sequence s" by simp
  obtain st cf_id c where e: "sequence ! pointer s = (st, cf_id, c)"
    by (cases "sequence ! pointer s") auto
  from f e have p: "pointer s < length sequence"
    and n: "py_index (length (controlQueues s)) cf_id = None"
    by (simp_all add: put_failed_def)
  from p e have "(st, cf_id, c) \<in> set sequence" by (metis nth_mem)
  with assms(2) have "0 \<le> cf_id \<and> cf_id < int (length qs)" by auto
  moreover from raised(2) have "length (controlQueues s) = length qs"
    by (simp add: sched_inv_def)
  ultimately show ?thesis using n by (simp add: py_index_def)
qed

theorem scheduler_delivers_in_table_order_witness:
  "\<exists>s. control_thread [(0, 0, Takeoff (1 / 2) 2), (0, 1, Takeoff (1 / 2) 2),
                        (2, 0, Land 2), (2, 1, Land 2)]
          (new_queues [''radio://0/80/2M/E7E7E7E701'', ''radio://0/80/2M/E7E7E7E702'',
                       ''radio://0/80/2M/E7E7E7E704'']) = Inr s \<and>
       controlQueues s ! 0 = [Takeoff (1 / 2) 2, Land 2, Quit] \<and>
       controlQueues s ! 1 = [Takeoff (1 / 2) 2, Land 2, Quit] \<and>
       controlQueues s ! 2 = [Quit]"
  using scheduler_delivers_in_table_order
    [of "[(0, 0, Takeoff (1 / 2) 2), (0, 1, Takeoff (1 / 2) 2), (2, 0, Land 2), (2, 1, Land 2)]"
        "new_queues [''radio://0/80/2M/E7E7E7E701'', ''radio://0/80/2M/E7E7E7E702'',
                     ''radio://0/80/2M/E7E7E7E704'']"]
  by (auto simp: new_queues_def)

text \<open>
  C1 as stated, for every table, fails three ways: on the empty table the scheduler
  raises and no queue receives \<open>Quit\<close>; an agent id beyond the queues raises at its put
  and no queue receives \<open>Quit\<close>; a negative agent id is taken from the end by Python's
  indexing, so that the entry for agent \<open>-1\<close> lands on the queue of agent 1.
\<close>

theorem scheduler_delivers_counterexample:
  "control_thread [] [[], []] =
     Inl (IndexError, \<lparr>pointer = 0, step = 0, stop = False, controlQueues = [[], []],
                       out = [Print_step 0]\<rparr>) \<and>
   control_thread [(0, 2, Land 2)] [[], []] =
     Inl (IndexError, \<lparr>pointer = 0, step = 0, stop = False, controlQueues = [[], []],
                       out = [Print_step 0, Print_running (Land 2) 2]\<rparr>) \<and>
   control_thread [(0, - 1, Land 2)] [[], []] =
     Inr \<lparr>pointer = 1, step = 1, stop = True, controlQueues = [[Quit], [Land 2, Quit]],
          out = [Print_step 0, Print_running (Land 2) (- 1), Queue_put 0 1 (Land 2), Print_end,
                 Sleep_STEP_TIME, Queue_put 1 0 Quit, Queue_put 1 1 Quit]\<rparr>"
  by (simp add: control_thread_def outer.simps inner.simps quit_all_def put_def py_index_def)

text \<open>
  C2. For every table sorted by non-decreasing step, whenever the entry at position \<open>i\<close>
  has been put (\<open>i\<close> is before the cursor of the state in which the run ended, normally
  or not), every entry \<open>j\<close> of the table with a smaller step, in particular every entry of
  the step before, was put earlier: it is the \<open>j\<close>-th put, \<open>j < i\<close>, and it happened at a
  tick not later than that of entry \<open>i\<close>. Each of the two was put at the tick of its own
  step (at tick 0 for a negative step), so the puts of step \<open>N - 1\<close> are all done, and a
  sleep has passed, before the first put of step \<open>N \<ge> 1\<close>.
\<close>

theorem monotonic_batches:
  assumes "sorted (map fst sequence)"
    and "s = final_state (control_thread sequence qs)"
    and "i < pointer s" and "j < length sequence"
    and "fst (sequence ! j) < fst (sequence ! i)"
  shows "j < i \<and>
         (\<exists>ti ki tj kj. puts (out s) ! i = (ti, ki, snd (snd (sequence ! i))) \<and>
                        puts (out s) ! j = (tj, kj, snd (snd (sequence ! j))) \<and>
                        tj \<le> ti \<and>
                        ti = max 0 (fst (sequence ! i)) \<and> tj = max 0 (fst (sequence ! j)))"
proof -
  obtain s0 ys where i0: "sched_inv sequence qs s0" and p0: "pointer s = pointer s0"
    and o0: "puts (out s) = puts (out s0) @ ys"
  proof (cases rule: control_thread_cases [where sequence = sequence and qs = qs])
    case (finished s0)
    from finished(1) assms(2) have "s = quit_all s0" by (simp add: final_state_def)
    then have "pointer s = pointer s0"
      and "puts (out s) = puts (out s0) @ map (\<lambda>k. (step s0, k, Quit)) [0..<length (controlQueues s0)]"
      by (simp_all add: puts_quit_all) (simp add: quit_all_eq)
    with finished(2) that show ?thesis by blast
  next
    case (raised s0)
    from raised(1) assms(2) have "s = s0" by (simp add: final_state_def)
    with raised(2) that [of s0 "[]"] show ?thesis by simp
  qed
  from i0 have len: "length (puts (out s0)) = pointer s0" and ple: "pointer s0 \<le> length sequence"
    and srt: "sorted (map fst (puts (out s0)))"
    and b: "\<And>i. i < pointer s0 \<Longrightarrow> \<exists>t k. puts (out s0) ! i = (t, k, snd (snd (sequence ! i))) \<and>
         t = max 0 (fst (sequence ! i))"
    using assms(1) by (fastforce simp: sched_inv_def)+
  have pre: "puts (out s) ! m = puts (out s0) ! m" if "m < pointer s0" for m
    using o0 that len by (auto simp: nth_append)
  have il: "i < length sequence" using assms(3) p0 ple by simp
  have ji: "j < i"
  proof (rule ccontr)
    assume "\<not> j < i"
    then have "i \<le> j" by simp
    with assms(1,4) il have "fst (sequence ! i) \<le> fst (sequence ! j)"
      using sorted_nth_mono [of "map fst sequence" i j] by simp
    with assms(5) show False by simp
  qed
  from b [of i] assms(3) p0 obtain ti ki where
    pi: "puts (out s0) ! i = (ti, ki, snd (snd (sequence ! i)))"
      "ti = max 0 (fst (sequence ! i))"
    by auto
  from b [of j] ji assms(3) p0 obtain tj kj where
    pj: "puts (out s0) ! j = (tj, kj, snd (snd (sequence ! j)))"
      "tj = max 0 (fst (sequence ! j))"
    by auto
  from srt ji assms(3) p0 len have "map fst (puts (out s0)) ! j \<le> map fst (puts (out s0)) ! i"
    by (intro sorted_nth_mono) simp_all
  with pi pj ji assms(3) p0 len have "tj \<le> ti" by simp
  with ji pi pj pre [of i] pre [of j] assms(3) p0 show ?thesis by simp
qed

theorem monotonic_batches_witness:
  "(1::nat) < 2 \<and>
   (\<exists>ti ki tj kj.
      puts (out (final_state (control_thread
        [(0, 0, Takeoff (1 / 2) 2), (0, 1, Takeoff (1 / 2) 2), (2, 0, Land 2), (2, 1, Land 2)]
        [[], []]))) ! 2 = (ti, ki, Land 2) \<and>
      puts (out (final_state (control_thread
        [(0, 0, Takeoff (1 / 2) 2), (0, 1, Takeoff (1 / 2) 2), (2, 0, Land 2), (2, 1, Land 2)]
        [[], []]))) ! 1 = (tj, kj, Takeoff (1 / 2) 2) \<and>
      tj \<le> ti \<and> ti = 2 \<and> tj = 0)"
  using monotonic_batches
    [of "[(0, 0, Takeoff (1 / 2) 2), (0, 1, Takeoff (1 / 2) 2), (2, 0, Land 2), (2, 1, Land 2)]"
        "final_state (control_thread
           [(0, 0, Takeoff (1 / 2) 2), (0, 1, Takeoff (1 / 2) 2), (2, 0, Land 2), (2, 1, Land 2)]
           [[], []])"
        "[[], []]" 2 1]
  by (simp add: control_thread_def outer.simps inner.simps quit_all_def put_def py_index_def
      final_state_def)

text \<open>
  C5 as stated fails: nothing validates the table before the loop starts. With two
  agents, the entry for agent 7 at step 1 is reached only after the entry of step 0 has
  been put on its queue and a tick has passed; the put then raises \<^verbatim>\<open>IndexError\<close> in the
  middle of the run.
\<close>

theorem unknown_agent_counterexample:
  "control_thread [(0, 0, Takeoff (1 / 2) 2), (1, 7, Land 2)] [[], []] =
     Inl (IndexError,
          \<lparr>pointer = 1, step = 1, stop = False, controlQueues = [[Takeoff (1 / 2) 2], []],
           out = [Print_step 0, Print_running (Takeoff (1 / 2) 2) 0,
                  Queue_put 0 0 (Takeoff (1 / 2) 2), Sleep_STEP_TIME,
                  Print_step 1, Print_running (Land 2) 7]\<rparr>)"
  by (simp add: control_thread_def outer.simps inner.simps quit_all_def put_def py_index_def)

text \<open>
  C5 (as amended). No entry is validated before the run. The first entry of the table
  whose agent id lies outside \<open>- n \<dots> n - 1\<close>, \<open>n\<close> the number of queues, makes the
  scheduler raise \<^verbatim>\<open>IndexError\<close> when the cursor reaches it, at the put that follows the
  print of the entry: every earlier entry has been put on its queue by then (an id
  \<open>a < 0\<close> on the queue of agent \<open>a + n\<close>), and no \<open>Quit\<close> is put.
\<close>

theorem unknown_agent_raises_mid_run:
  assumes "i < length sequence" and "sequence ! i = (st, cf_id, c)"
    and "cf_id < - int (length qs) \<or> int (length qs) \<le> cf_id"
    and "\<forall>(st', a, c') \<in> set (take i sequence). - int (length qs) \<le> a \<and> a < int (length qs)"
  shows "\<exists>s. control_thread sequence qs = Inl (IndexError, s) \<and> pointer s = i \<and> \<not> stop s \<and>
           last (out s) = Print_running c cf_id \<and>
           length (controlQueues s) = length qs \<and>
           (\<forall>j<length qs. controlQueues s ! j =
              qs ! j @ [c'. (st', a, c') \<leftarrow> take i sequence,
                           a = int j \<or> a = int j - int (length qs)])"
proof (cases rule: control_thread_cases [where sequence = sequence and qs = qs])
  case (finished s)
  with assms(1) have "\<exists>k. py_index (length qs) (fst (snd (sequence ! i))) = Some k"
    by (auto simp: sched_inv_def)
  with assms(2,3) show ?thesis by (simp add: py_index_None_iff [symmetric])
next
  case (raised s)
  from raised(2) have len: "length (controlQueues s) = length qs"
    and q: "\<forall>j<length qs. controlQueues s ! j =
               qs ! j @ addressed (length qs) j (take (pointer s) sequence)"
    and b: "\<And>m. m < pointer s \<Longrightarrow> \<exists>k. py_index (length qs) (fst (snd (sequence ! m))) = Some k"
    by (auto simp: sched_inv_def)
  from raised(4) assms(1) have f: "put_failed sequence s" by auto
  with len have n: "py_index (length qs) (fst (snd (sequence ! pointer s))) = None"
    by (auto simp: put_failed_def split: prod.splits)
  have "\<not> i < pointer s" using b [of i] assms(2,3) by (auto simp: py_index_None_iff [symmetric])
  moreover have "\<not> pointer s < i"
  proof
    assume lt: "pointer s < i"
    with assms(1) have "sequence ! pointer s \<in> set (take i sequence)"
      by (auto simp: in_set_conv_nth intro!: exI [of _ "pointer s"])
    with assms(4) have "py_index (length qs) (fst (snd (sequence ! pointer s))) \<noteq> None"
      by (auto simp: py_index_None_iff)
    with n show False by simp
  qed
  ultimately have p: "pointer s = i" by simp
  with f assms(2) have "last (out s) = Print_running c cf_id" by (simp add: put_failed_def)
  with raised(1,3) len q p show ?thesis by (simp add: addressed_wrapped)
qed

theorem unknown_agent_raises_mid_run_witness:
  "\<exists>s. control_thread [(0, - 1, Takeoff (1 / 2) 2), (1, 7, Land 2)] [[], []] =
          Inl (IndexError, s) \<and>
       pointer s = 1 \<and> \<not> stop s \<and> last (out s) = Print_running (Land 2) 7 \<and>
       controlQueues s ! 0 = [] \<and> controlQueues s ! 1 = [Takeoff (1 / 2) 2]"
  using unknown_agent_raises_mid_run
    [of 1 "[(0, - 1, Takeoff (1 / 2) 2), (1, 7, Land 2)]" 1 7 "Land 2" "[[], []]"]
  by auto

text \<open>
  C6. There is a table with out-of-order steps, an entry of step 1 placed after an entry
  of step 2, on which the inner loop passes over the later entry until the clock has
  reached the earlier one: ticks 0 and 1 put nothing, and at tick 2 both entries are
  put, the step-2 entry first. The step-1 entry is not dispatched at its own step, the
  agent receives the two commands against step order, and nothing is reported.
\<close>

theorem out_of_order_entry_dispatched_late:
  "control_thread [(2, 0, Takeoff 1 2), (1, 0, Land 2)] [[]] =
     Inr \<lparr>pointer = 2, step = 3, stop = True,
          controlQueues = [[Takeoff 1 2, Land 2, Quit]],
          out = [Print_step 0, Sleep_STEP_TIME, Print_step 1, Sleep_STEP_TIME,
                 Print_step 2, Print_running (Takeoff 1 2) 0, Queue_put 2 0 (Takeoff 1 2),
                 Print_running (Land 2) 0, Queue_put 2 0 (Land 2), Print_end,
                 Sleep_STEP_TIME, Queue_put 3 0 Quit]\<rparr>"
  by (simp add: control_thread_def outer.simps inner.simps quit_all_def put_def py_index_def)

text \<open>
  C10. On the empty table, whatever the queues, the first read \<^verbatim>\<open>sequence[pointer]\<close>
  with \<open>pointer = 0\<close> raises \<^verbatim>\<open>IndexError\<close>: the only event before it is the print of
  step 0, nothing has been put on any queue, and the shutdown loop is never reached, so
  no agent receives \<open>Quit\<close>. The end-of-table test sits after the put.
\<close>

theorem empty_table_raises:
  "control_thread [] qs =
   Inl (IndexError, \<lparr>pointer = 0, step = 0, stop = False, controlQueues = qs, out = [Print_step 0]\<rparr>)"
  by (simp add: control_thread_def outer.simps inner_read_raises)


section \<open>The worker: set-up\<close>

text \<open>
  \<^verbatim>\<open>crazyflie_control\<close> on a known link: the four writes of the set-up, then the loop on
  the agent's queue.
\<close>

lemma crazyflie_control_runs_loop:
  "list_index uris link_uri = Some k \<Longrightarrow> k < length queues \<Longrightarrow>
   crazyflie_control mcos msin sleep_error uris queues link_uri uri =
     after [Set_value ''stabilizer.controller'' (Str_of_int 1),
            Set_value ''ring.fadeTime'' (Str_of_num 0),
            Set_value ''ring.fadeColor'' (Str_of_int 0),
            Set_value ''ring.effect'' (Str ''14'')]
       (worker_loop mcos msin sleep_error uri (queues ! k))"
  by (simp add: crazyflie_control_def activate_mellinger_controller_def set_ring_color_def
      fmul_def rnd64_def py_int_def)

section \<open>The worker: the claims\<close>




text \<open>
  C4. For every \<^verbatim>\<open>Ring\<close> with \<open>r\<close>, \<open>g\<close>, \<open>b\<close> in \<open>[0, 255]\<close> and intensity in \<open>[0, 1]\<close>, the
  worker runs \<^verbatim>\<open>set_ring_color\<close>, which makes two writes on the parameter channel and no
  motion call: the fade duration, and the colour \<open>(R << 16) | (G << 8) | B\<close> where \<open>R\<close>,
  \<open>G\<close>, \<open>B\<close> are the scaled channels truncated to integers, each in \<open>0 \<dots> 255\<close>, so that the
  colour is \<open>R * 65536 + G * 256 + B\<close>, a 24-bit value. \<open>(255, 0, 0, 1.0)\<close> gives
  \<open>0xFF0000\<close>, and \<open>(255, 255, 255, 0.5)\<close> gives \<open>0x7F7F7F\<close>. The two writes are the
  events of the worker for that command, before those of the rest of its queue.
\<close>

theorem ring_color_packed:
  assumes "0 \<le> r \<and> r \<le> 255" and "0 \<le> g \<and> g \<le> 255" and "0 \<le> b \<and> b \<le> 255"
    and "0 \<le> intensity \<and> intensity \<le> 1"
  shows "(\<exists>R G B.
     R = py_int (fmul r intensity) \<and> G = py_int (fmul g intensity) \<and>
     B = py_int (fmul b intensity) \<and>
     0 \<le> R \<and> R \<le> 255 \<and> 0 \<le> G \<and> G \<le> 255 \<and> 0 \<le> B \<and> B \<le> 255 \<and>
     set_ring_color r g b intensity time =
       [Set_value ''ring.fadeTime'' (Str_of_num time),
        Set_value ''ring.fadeColor'' (Str_of_int (push_bit 16 R OR push_bit 8 G OR B))] \<and>
     push_bit 16 R OR push_bit 8 G OR B = R * 65536 + G * 256 + B \<and>
     0 \<le> push_bit 16 R OR push_bit 8 G OR B \<and> push_bit 16 R OR push_bit 8 G OR B < 2 ^ 24) \<and>
   worker_loop mcos msin sleep_error uri (Ring r g b intensity time # control) =
     after (set_ring_color r g b intensity time) (worker_loop mcos msin sleep_error uri control) \<and>
   events (worker_loop mcos msin sleep_error uri (Ring r g b intensity time # control)) =
     set_ring_color r g b intensity time @ events (worker_loop mcos msin sleep_error uri control) \<and>
   status (worker_loop mcos msin sleep_error uri (Ring r g b intensity time # control)) =
     status (worker_loop mcos msin sleep_error uri control) \<and>
   unread (worker_loop mcos msin sleep_error uri (Ring r g b intensity time # control)) =
     unread (worker_loop mcos msin sleep_error uri control) \<and>
   waypoints (set_ring_color r g b intensity time) = [] \<and>
   set_ring_color 255 0 0 1 time =
     [Set_value ''ring.fadeTime'' (Str_of_num time),
      Set_value ''ring.fadeColor'' (Str_of_int 0xFF0000)] \<and>
   set_ring_color 255 255 255 (1 / 2) time =
     [Set_value ''ring.fadeTime'' (Str_of_num time),
      Set_value ''ring.fadeColor'' (Str_of_int 0x7F7F7F)]"
proof -
  let ?R = "py_int (fmul r intensity)"
  let ?G = "py_int (fmul g intensity)"
  let ?B = "py_int (fmul b intensity)"
  have R: "0 \<le> ?R \<and> ?R \<le> 255" using assms(1,4) by (intro channel_range) simp_all
  have G: "0 \<le> ?G \<and> ?G \<le> 255" using assms(2,4) by (intro channel_range) simp_all
  have B: "0 \<le> ?B \<and> ?B \<le> 255" using assms(3,4) by (intro channel_range) simp_all
  have p: "push_bit 16 ?R OR push_bit 8 ?G OR ?B = ?R * 65536 + ?G * 256 + ?B"
    using R G B by (intro pack_channels) simp_all
  have lo: "0 \<le> ?R * 65536 + ?G * 256 + ?B" using R G B by simp
  have hi: "?R * 65536 + ?G * 256 + ?B < 2 ^ 24" using R G B by simp
  have s: "set_ring_color r g b intensity time =
       [Set_value ''ring.fadeTime'' (Str_of_num time),
        Set_value ''ring.fadeColor'' (Str_of_int (push_bit 16 ?R OR push_bit 8 ?G OR ?B))]"
    by (simp add: set_ring_color_def Let_def)
  have w: "waypoints (set_ring_color r g b intensity time) = []"
    by (simp add: s)
  have e1: "set_ring_color 255 0 0 1 time =
     [Set_value ''ring.fadeTime'' (Str_of_num time),
      Set_value ''ring.fadeColor'' (Str_of_int 0xFF0000)]"
    by code_simp
  have e2: "set_ring_color 255 255 255 (1 / 2) time =
     [Set_value ''ring.fadeTime'' (Str_of_num time),
      Set_value ''ring.fadeColor'' (Str_of_int 0x7F7F7F)]"
    by code_simp
  from R G B p lo hi s w e1 e2 show ?thesis by simp
qed

theorem ring_color_packed_witness:
  "set_ring_color 255 128 0 (1 / 2) 3 =
     [Set_value ''ring.fadeTime'' (Str_of_num 3),
      Set_value ''ring.fadeColor'' (Str_of_int 0x7F4000)]"
proof -
  have "py_int (fmul 255 (1 / 2)) = 127" "py_int (fmul 128 (1 / 2)) = 64"
    "py_int (fmul 0 (1 / 2)) = 0"
    by code_simp+
  with ring_color_packed [of 255 128 0 "1 / 2" 3] show ?thesis by simp
qed

text \<open>
  C7. \<open>Quit\<close> makes the worker return at once: no call is made and the commands behind
  it stay unread. For the other three, the events of the worker are one call followed
  by the events of the worker on the rest of the queue, which ends as it would have
  without the command: \<open>Takeoff\<close> calls the takeoff primitive with its height and
  duration, \<open>Land\<close> the landing primitive with height 0 and its duration, \<open>Goto\<close> the
  absolute position primitive with its position, yaw 0 and its duration. So a queue
  holding a take-off, a go-to, a landing, \<open>Quit\<close> and one more landing gives exactly the
  three calls, in order, and leaves the last landing unread.
\<close>

theorem worker_dispatch:
  "worker_loop mcos msin sleep_error uri (Quit # control) =
     \<lparr>events = [], status = Returned, unread = control\<rparr> \<and>
   events (worker_loop mcos msin sleep_error uri (Takeoff height time # control)) =
     Takeoff_call height time # events (worker_loop mcos msin sleep_error uri control) \<and>
   status (worker_loop mcos msin sleep_error uri (Takeoff height time # control)) =
     status (worker_loop mcos msin sleep_error uri control) \<and>
   unread (worker_loop mcos msin sleep_error uri (Takeoff height time # control)) =
     unread (worker_loop mcos msin sleep_error uri control) \<and>
   events (worker_loop mcos msin sleep_error uri (Land time # control)) =
     Land_call 0 time # events (worker_loop mcos msin sleep_error uri control) \<and>
   status (worker_loop mcos msin sleep_error uri (Land time # control)) =
     status (worker_loop mcos msin sleep_error uri control) \<and>
   unread (worker_loop mcos msin sleep_error uri (Land time # control)) =
     unread (worker_loop mcos msin sleep_error uri control) \<and>
   events (worker_loop mcos msin sleep_error uri (Goto x y z time # control)) =
     Go_to x y z 0 time # events (worker_loop mcos msin sleep_error uri control) \<and>
   status (worker_loop mcos msin sleep_error uri (Goto x y z time # control)) =
     status (worker_loop mcos msin sleep_error uri control) \<and>
   unread (worker_loop mcos msin sleep_error uri (Goto x y z time # control)) =
     unread (worker_loop mcos msin sleep_error uri control) \<and>
   worker_loop mcos msin sleep_error uri
       [Takeoff (1 / 2) 2, Goto (2 / 5) (- (2 / 5)) (1 / 2) 1, Land 2, Quit, Land 3] =
     \<lparr>events = [Takeoff_call (1 / 2) 2, Go_to (2 / 5) (- (2 / 5)) (1 / 2) 0 1, Land_call 0 2],
      status = Returned, unread = [Land 3]\<rparr>"
  by (simp add: after_def)


text \<open>
  C9. A \<^verbatim>\<open>Helix\<close> whose \<^verbatim>\<open>No_setpoints\<close> is 0 raises \<^verbatim>\<open>ZeroDivisionError\<close> at
  \<^verbatim>\<open>circle_period / No_setpoints\<close>, before any call: the worker ends there and the rest
  of its queue stays unread. Nothing guards against 0.
\<close>

theorem helix_zero_steps_raises:
  "worker_loop mcos msin sleep_error uri (Helix d z zf theta0 circle_period 0 time # control) =
     \<lparr>events = [], status = Raised ZeroDivisionError, unread = control\<rparr>"
  by (simp add: helix_def)

end
